theory Spec2Isabelle
  imports Complex_Main "HOL-Library.Product_Lexorder" "HOL-Library.Multiset"
begin

section \<open>Time ranges of the timeline (timeline\_widget.py)\<close>

text \<open>
  A time range is the Python tuple \<open>(start, end)\<close>. The timeline code only compares,
  sorts, and takes \<open>max\<close>/\<open>min\<close> of the two components, so the model is polymorphic in
  a linearly ordered type of time stamps. Python's \<open>sorted\<close> on tuples is the
  lexicographic order of pairs.
\<close>

type_synonym 'a seg = "'a \<times> 'a"

subsection \<open>merge\_overlapping\_segments\<close>

text \<open>
  One iteration of the loop \<open>for current in sorted_segments[1:]\<close>: \<open>previous\<close> is
  \<open>merged[-1]\<close>; either the last element of \<open>merged\<close> is overwritten or \<open>current\<close>
  is appended. The loop is only entered with a non-empty \<open>merged\<close>.
\<close>

definition merge_step :: "('a::linorder) seg list \<Rightarrow> 'a seg \<Rightarrow> 'a seg list" where
  "merge_step merged current =
     (let previous = last merged in
      if fst current \<le> snd previous
      then butlast merged @ [(fst previous, max (snd previous) (snd current))]
      else merged @ [current])"

definition merge_overlapping_segments :: "('a::linorder) seg list \<Rightarrow> 'a seg list" where
  "merge_overlapping_segments segments =
     (if segments = [] then []
      else let sorted_segments = sort segments
           in foldl merge_step [hd sorted_segments] (tl sorted_segments))"

subsection \<open>get\_effective\_segments\<close>



subsection \<open>The specified interval subtraction\<close>






subsection \<open>Covered time and shape of a list of ranges\<close>

text \<open>A range covers the half-open span from its start to its end.\<close>

definition covers :: "('a::linorder) seg list \<Rightarrow> 'a \<Rightarrow> bool" where
  "covers segs t = list_ex (\<lambda>r. fst r \<le> t \<and> t < snd r) segs"

text \<open>Pairwise: an earlier range ends strictly before a later one starts.\<close>

definition non_overlapping :: "('a::linorder) seg list \<Rightarrow> bool" where
  "non_overlapping segs = sorted_wrt (\<lambda>a b. snd a < fst b) segs"


subsection \<open>The merge loop as a recursion\<close>

text \<open>The loop of \<open>merge_overlapping_segments\<close> as a recursion on the remaining input.\<close>

fun mrg :: "('a::linorder) seg \<Rightarrow> 'a seg list \<Rightarrow> 'a seg list" where
  "mrg p [] = [p]"
| "mrg p (x # xs) =
     (if fst x \<le> snd p then mrg (fst p, max (snd p) (snd x)) xs else p # mrg x xs)"


section \<open>Frames, clips and the collaborators of the video processor (video\_processor.py)\<close>

text \<open>
  Times, rates and the speed factor are Python floats; they are modelled as exact
  rationals, so rounding of the floating-point operations is not part of the model.
  \<open>int(x)\<close> on a float truncates toward zero.
\<close>

definition py_int :: "rat \<Rightarrow> int" where
  "py_int x = (if 0 \<le> x then \<lfloor>x\<rfloor> else \<lceil>x\<rceil>)"

text \<open>
  A decoded frame is an RGB array: \<open>clip.get_frame\<close> of moviepy and
  \<open>cv2.cvtColor(frame, COLOR_BGR2RGB)\<close> both yield three channels, so the shape
  \<open>(height, width, channels)\<close> is determined by height and width. Pixel data is not modelled.
\<close>

record frame =
  height :: nat
  width :: nat

definition shape :: "frame \<Rightarrow> nat \<times> nat \<times> nat" where
  "shape fr = (height fr, width fr, 3)"

text \<open>
  \<open>cv2.resize(frame, (w, h))\<close>: raises on an empty source or an empty target size
  (\<open>None\<close>), and otherwise returns a frame of exactly \<open>h\<close> rows and \<open>w\<close> columns.
\<close>

definition cv2_resize :: "frame \<Rightarrow> nat \<times> nat \<Rightarrow> frame option" where
  "cv2_resize fr dsize =
     (if fst dsize = 0 \<or> snd dsize = 0 \<or> height fr = 0 \<or> width fr = 0 then None
      else Some \<lparr>height = snd dsize, width = fst dsize\<rparr>)"

text \<open>
  The clip that \<open>VideoFileClip(path).subclip(..)\<close>, followed by \<open>crop\<close>, \<open>resize\<close> and
  \<open>set_fps\<close>, hands back: its duration and its frame access, where \<open>None\<close> stands for a
  decode that raises (or returns no array, so that reading \<open>frame.shape\<close> raises).
\<close>

record clip =
  duration :: rat
  get_frame :: "rat \<Rightarrow> frame option"

datatype write_outcome = Written | Raises_TypeError | Raises_Other

text \<open>Where in the source an \<open>imageio.mimsave\<close> call is made.\<close>

datatype call_site = Segments_path | Speed_path | Direct_fallback | Preview_save

text \<open>
  An encoder invocation with the arguments that matter: \<open>imageio.mimsave(path, frames,
  fps, quantizer, loop)\<close>, \<open>clip.write_gif(path, fps, opt, fuzz, loop)\<close> and
  \<open>clip.write_gif(path, fps, program='ffmpeg', loop)\<close>.
\<close>

datatype encoder_call =
    Mimsave call_site "frame list" rat int int
  | Write_gif_optimized rat int int
  | Write_gif_ffmpeg rat int

fun call_fps :: "encoder_call \<Rightarrow> rat" where
  "call_fps (Mimsave site frames f q l) = f"
| "call_fps (Write_gif_optimized f z l) = f"
| "call_fps (Write_gif_ffmpeg f l) = f"



fun call_frames :: "encoder_call \<Rightarrow> frame list option" where
  "call_frames (Mimsave site frames f q l) = Some frames"
| "call_frames (Write_gif_optimized f z l) = None"
| "call_frames (Write_gif_ffmpeg f l) = None"

fun call_site_of :: "encoder_call \<Rightarrow> call_site option" where
  "call_site_of (Mimsave site frames f q l) = Some site"
| "call_site_of (Write_gif_optimized f z l) = None"
| "call_site_of (Write_gif_ffmpeg f l) = None"

text \<open>
  What the processor finds around it: whether \<open>self.cap\<close> is open, whether the video path
  exists, whether \<open>VideoFileClip\<close> was imported, the clip for a time range (\<open>None\<close>: building
  it raises), whether \<open>mimsave\<close> accepts a call (otherwise it raises), how the two
  \<open>write_gif\<close> attempts end, and for the preview the frame rate of the loaded video and
  \<open>VideoProcessor.get_frame\<close> by frame number.
\<close>

record env =
  cap_opened :: bool
  path_exists :: bool
  VideoFileClip_available :: bool
  subclip :: "rat \<Rightarrow> rat \<Rightarrow> clip option"
  encoder_accepts :: "encoder_call \<Rightarrow> bool"
  write_gif_optimized :: write_outcome
  write_gif_ffmpeg :: write_outcome
  video_fps :: rat
  read_frame :: "int \<Rightarrow> frame option"

text \<open>
  The parameters of \<open>create_gif\<close> and \<open>generate_preview\<close>. \<open>segments\<close> is \<open>[]\<close> for both
  \<open>None\<close> and the empty list (the source tests its truth value); \<open>progress_callback\<close> says
  whether a callback was passed; \<open>dimensions\<close> is \<open>(width, height)\<close>; \<open>crop_rect\<close> is
  \<open>(x, y, w, h)\<close>.
\<close>

record params =
  start_time :: rat
  end_time :: rat
  fps :: rat
  dimensions :: "nat \<times> nat"
  quality :: rat
  crop_rect :: "(nat \<times> nat \<times> nat \<times> nat) option"
  loop :: bool
  progress_callback :: bool
  segments :: "(rat \<times> rat) list"
  speed_factor :: rat

text \<open>What a run of \<open>create_gif\<close> does: its return value, the values passed to the
  progress callback in order, and the encoder invocations in order.\<close>

record outcome =
  returned :: bool
  progress :: "int list"
  encoder :: "encoder_call list"

subsection \<open>Frame sampling\<close>

text \<open>
  \<open>frame_count = int(seg_duration * fps / speed_factor)\<close>, and the iterations of
  \<open>for f in range(frame_count)\<close> that pass \<open>if frame_time <= seg_duration\<close>, each with its
  index \<open>f\<close> and its \<open>frame_time = f * time_step\<close>, for \<open>time_step = seg_duration /
  frame_count\<close>; nothing when \<open>frame_count > 0\<close> fails.
\<close>

definition frame_count_of :: "rat \<Rightarrow> rat \<Rightarrow> rat \<Rightarrow> int" where
  "frame_count_of seg_duration r s = py_int (seg_duration * r / s)"

definition sample_plan :: "rat \<Rightarrow> int \<Rightarrow> (nat \<times> rat) list" where
  "sample_plan seg_duration frame_count =
     (if frame_count > 0
      then let time_step = seg_duration / of_int frame_count
           in filter (\<lambda>ft. snd ft \<le> seg_duration)
                (map (\<lambda>f. (f, of_nat f * time_step)) [0..<nat frame_count])
      else [])"

definition report :: "params \<Rightarrow> int list \<Rightarrow> int \<Rightarrow> int list" where
  "report a prog v = (if progress_callback a then prog @ [v] else prog)"

definition loop_param :: "params \<Rightarrow> int" where
  "loop_param a = (if loop a then 0 else 1)"

subsection \<open>create\_gif with segments\<close>

text \<open>
  The body of the \<open>try\<close> for one sampled frame of segment \<open>i\<close> of \<open>n\<close>: the frame is
  decoded and, when its size is not the target size, resized; an exception in either
  (\<open>None\<close>) skips the frame; otherwise it is appended and, on every fifth index, the
  progress is reported.
\<close>

definition fetch_segment_frame :: "clip \<Rightarrow> params \<Rightarrow> rat \<Rightarrow> frame option" where
  "fetch_segment_frame clp a frame_time =
     (let target_width = fst (dimensions a); target_height = snd (dimensions a)
      in case get_frame clp frame_time of
           None \<Rightarrow> None
         | Some frm \<Rightarrow>
             if height frm \<noteq> target_height \<or> width frm \<noteq> target_width
             then cv2_resize frm (target_width, target_height) else Some frm)"

definition segment_frame_step ::
  "clip \<Rightarrow> params \<Rightarrow> nat \<Rightarrow> nat \<Rightarrow> int \<Rightarrow> frame list \<times> int list \<Rightarrow> nat \<times> rat
     \<Rightarrow> frame list \<times> int list" where
  "segment_frame_step clp a i n frame_count st ft =
     (case fetch_segment_frame clp a (snd ft) of
        None \<Rightarrow> st
      | Some frm \<Rightarrow>
          (fst st @ [frm],
           if fst ft mod 5 = 0
           then report a (snd st)
                  (min 89 (py_int (40 + (of_nat i / of_nat n
                       + (of_nat (fst ft) / of_int frame_count) / of_nat n) * 50)))
           else snd st))"

text \<open>
  One iteration of \<open>for i, (seg_start, seg_end) in enumerate(segments)\<close> on the state
  \<open>(all_frames, progress so far)\<close>. \<open>Inl\<close> is an exception that leaves the loop (building
  the clip, dividing by a zero speed factor, or the unguarded resize of a mismatched
  batch), with the progress reported until then.
\<close>

definition process_segment ::
  "env \<Rightarrow> params \<Rightarrow> nat \<Rightarrow> frame list \<times> int list \<Rightarrow> nat \<times> (rat \<times> rat)
     \<Rightarrow> int list + frame list \<times> int list" where
  "process_segment ev a n st iseg =
     (let all_frames = fst st; i = fst iseg;
          prog1 = report a (snd st) (py_int (of_nat i / of_nat n * 40))
      in case subclip ev (fst (snd iseg)) (snd (snd iseg)) of
           None \<Rightarrow> Inl prog1
         | Some clp \<Rightarrow>
             if speed_factor a = 0 then Inl prog1
             else
               let seg_duration = duration clp;
                   frame_count = frame_count_of seg_duration (fps a) (speed_factor a);
                   st2 = foldl (segment_frame_step clp a i n frame_count) ([], prog1)
                           (sample_plan seg_duration frame_count);
                   segment_frames = fst st2; prog2 = snd st2
               in if segment_frames \<noteq> []
                  then let first_frame = hd segment_frames;
                           kept = filter (\<lambda>frm. shape frm = shape first_frame) segment_frames
                       in if kept \<noteq> []
                          then if all_frames \<noteq> [] \<and> shape (hd kept) \<noteq> shape (hd all_frames)
                               then (case those (map (\<lambda>frm. cv2_resize frm
                                             (width (hd all_frames), height (hd all_frames))) kept) of
                                       None \<Rightarrow> Inl prog2
                                     | Some resized \<Rightarrow> Inr (all_frames @ resized, prog2))
                               else Inr (all_frames @ kept, prog2)
                          else Inr (all_frames, prog2)
                  else Inr (all_frames, prog2))"

fun process_segments ::
  "env \<Rightarrow> params \<Rightarrow> nat \<Rightarrow> frame list \<times> int list \<Rightarrow> (nat \<times> (rat \<times> rat)) list
     \<Rightarrow> int list + frame list \<times> int list" where
  "process_segments ev a n st [] = Inr st"
| "process_segments ev a n st (iseg # rest) =
     (case process_segment ev a n st iseg of
        Inl prog \<Rightarrow> Inl prog
      | Inr st' \<Rightarrow> process_segments ev a n st' rest)"

text \<open>
  The compatibility pass before encoding: a frame of the first frame's shape is kept, any
  other is resized to it, and dropped when the resize raises.
\<close>

definition make_compatible :: "frame list \<Rightarrow> frame list" where
  "make_compatible frames =
     (let first_frame = hd frames
      in concat (map (\<lambda>frm. if shape frm = shape first_frame then [frm]
                            else (case cv2_resize frm (width first_frame, height first_frame) of
                                    None \<Rightarrow> [] | Some resized \<Rightarrow> [resized])) frames))"

definition quantizer_of :: "params \<Rightarrow> int" where
  "quantizer_of a = py_int (100 - quality a * 100)"

text \<open>All frames of the same shape as the first one.\<close>

definition uniform_shape :: "frame list \<Rightarrow> bool" where
  "uniform_shape frames = list_all (\<lambda>frm. shape frm = shape (hd frames)) frames"

text \<open>\<open>all_frames\<close> after the loop over the segments, when no exception left the loop.\<close>

definition collected_frames :: "env \<Rightarrow> params \<Rightarrow> frame list option" where
  "collected_frames ev a =
     (case process_segments ev a (length (segments a)) ([], [])
             (zip [0..<length (segments a)] (segments a)) of
        Inl prog \<Rightarrow> None
      | Inr st \<Rightarrow> Some (fst st))"

definition create_gif_segments :: "env \<Rightarrow> params \<Rightarrow> outcome" where
  "create_gif_segments ev a =
     (case process_segments ev a (length (segments a)) ([], [])
             (zip [0..<length (segments a)] (segments a)) of
        Inl prog \<Rightarrow> \<lparr>returned = False, progress = prog, encoder = []\<rparr>
      | Inr st \<Rightarrow>
          let all_frames = fst st; prog = snd st
          in if all_frames \<noteq> []
             then let compatible_frames = make_compatible all_frames
                  in if compatible_frames \<noteq> []
                     then let prog1 = report a prog 90;
                              call = Mimsave Segments_path compatible_frames (fps a)
                                       (quantizer_of a) (loop_param a)
                          in if encoder_accepts ev call
                             then \<lparr>returned = True, progress = report a prog1 100, encoder = [call]\<rparr>
                             else \<lparr>returned = False, progress = prog1, encoder = [call]\<rparr>
                     else \<lparr>returned = False, progress = prog, encoder = []\<rparr>
             else \<lparr>returned = False, progress = prog, encoder = []\<rparr>)"

subsection \<open>create\_gif for a single range\<close>

text \<open>
  The body of the \<open>try\<close> for one sampled frame when a speed factor is applied: the
  frame is decoded and resized to the shape of the sample frame when it differs.
\<close>

definition fetch_speed_frame :: "clip \<Rightarrow> frame \<Rightarrow> rat \<Rightarrow> frame option" where
  "fetch_speed_frame clp sample_frame frame_time =
     (case get_frame clp frame_time of
        None \<Rightarrow> None
      | Some frm \<Rightarrow>
          if shape frm \<noteq> shape sample_frame
          then cv2_resize frm (width sample_frame, height sample_frame) else Some frm)"

definition speed_frame_step ::
  "clip \<Rightarrow> params \<Rightarrow> frame \<Rightarrow> int \<Rightarrow> frame list \<times> int list \<Rightarrow> nat \<times> rat
     \<Rightarrow> frame list \<times> int list" where
  "speed_frame_step clp a sample_frame frame_count st ft =
     (case fetch_speed_frame clp sample_frame (snd ft) of
        None \<Rightarrow> st
      | Some frm \<Rightarrow>
          (fst st @ [frm],
           if fst ft mod 5 = 0
           then report a (snd st)
                  (min 89 (py_int (30 + of_nat (fst ft) / of_int frame_count * 60)))
           else snd st))"

text \<open>
  The last resort \<open>for t in range(int(clip.duration * fps))\<close>: frames are appended as they
  are decoded, with no look at their shape; a decode that raises ends the export
  (\<open>Inl\<close>). The replacement \<open>VideoFileClip\<close> class of this file, whose \<open>get_frame\<close> can
  return no array, does not come here: its \<open>write_gif\<close> catches every exception.
\<close>

fun direct_loop ::
  "clip \<Rightarrow> params \<Rightarrow> frame list \<times> int list \<Rightarrow> nat list \<Rightarrow> int list + frame list \<times> int list" where
  "direct_loop clp a st [] = Inr st"
| "direct_loop clp a st (t # ts) =
     (let frame_time = (of_nat t / fps a) * speed_factor a
      in if frame_time \<le> duration clp
         then (case get_frame clp frame_time of
                 None \<Rightarrow> Inl (snd st)
               | Some frm \<Rightarrow>
                   direct_loop clp a
                     (fst st @ [frm],
                      if t mod 5 = 0
                      then report a (snd st)
                             (min 89 (py_int (30 + (of_nat t / (duration clp * fps a)) * 60)))
                      else snd st) ts)
         else direct_loop clp a st ts)"

text \<open>
  The standard methods after \<open>progress_callback(30)\<close>: the optimized \<open>write_gif\<close>, on a
  \<open>TypeError\<close> or \<open>AttributeError\<close> the ffmpeg \<open>write_gif\<close>, on any exception of that the
  direct \<open>imageio\<close> method; any other exception of the first attempt ends the export.
\<close>

definition standard_methods :: "env \<Rightarrow> params \<Rightarrow> clip \<Rightarrow> int list \<Rightarrow> outcome" where
  "standard_methods ev a clp prog =
     (let prog1 = report a prog 30;
          first_call = Write_gif_optimized (fps a) (py_int ((1 - quality a) * 100)) (loop_param a)
      in case write_gif_optimized ev of
           Written \<Rightarrow>
             \<lparr>returned = True, progress = report a (report a prog1 90) 100, encoder = [first_call]\<rparr>
         | Raises_Other \<Rightarrow> \<lparr>returned = False, progress = prog1, encoder = [first_call]\<rparr>
         | Raises_TypeError \<Rightarrow>
             let second_call = Write_gif_ffmpeg (fps a) (loop_param a)
             in if write_gif_ffmpeg ev = Written
                then \<lparr>returned = True, progress = report a (report a prog1 90) 100,
                       encoder = [first_call, second_call]\<rparr>
                else (case direct_loop clp a ([], prog1)
                             [0..<nat (py_int (duration clp * fps a))] of
                        Inl prog2 \<Rightarrow>
                          \<lparr>returned = False, progress = prog2, encoder = [first_call, second_call]\<rparr>
                      | Inr st \<Rightarrow>
                          if fst st \<noteq> []
                          then let call = Mimsave Direct_fallback (fst st) (fps a)
                                            (quantizer_of a) (loop_param a)
                               in if encoder_accepts ev call
                                  then \<lparr>returned = True,
                                         progress = report a (report a (snd st) 90) 100,
                                         encoder = [first_call, second_call, call]\<rparr>
                                  else \<lparr>returned = False, progress = snd st,
                                         encoder = [first_call, second_call, call]\<rparr>
                          else \<lparr>returned = False, progress = snd st,
                                 encoder = [first_call, second_call]\<rparr>))"

text \<open>The frames sampled on the single-range path when \<open>speed_factor != 1.0\<close>.\<close>

definition speed_frames :: "clip \<Rightarrow> params \<Rightarrow> frame \<Rightarrow> frame list \<times> int list" where
  "speed_frames clp a sample_frame =
     (let frame_count = frame_count_of (duration clp) (fps a) (speed_factor a)
      in foldl (speed_frame_step clp a sample_frame frame_count) ([], [])
           (sample_plan (duration clp) frame_count))"

definition create_gif_single :: "env \<Rightarrow> params \<Rightarrow> outcome" where
  "create_gif_single ev a =
     (case subclip ev (start_time a) (end_time a) of
        None \<Rightarrow> \<lparr>returned = False, progress = [], encoder = []\<rparr>
      | Some clp \<Rightarrow>
          if speed_factor a \<noteq> 1
          then (case get_frame clp 0 of
                  None \<Rightarrow> \<lparr>returned = False, progress = [], encoder = []\<rparr>
                | Some sample_frame \<Rightarrow>
                    if speed_factor a = 0
                    then \<lparr>returned = False, progress = [], encoder = []\<rparr>
                    else
                      let st = speed_frames clp a sample_frame;
                          frames = fst st; prog = snd st
                      in if frames \<noteq> []
                         then let filtered_frames = make_compatible frames
                              in if filtered_frames \<noteq> []
                                 then let prog1 = report a prog 80;
                                          call = Mimsave Speed_path filtered_frames (fps a)
                                                   (quantizer_of a) (loop_param a)
                                      in if encoder_accepts ev call
                                         then \<lparr>returned = True, progress = report a prog1 100,
                                                encoder = [call]\<rparr>
                                         else \<lparr>returned = False, progress = prog1,
                                                encoder = [call]\<rparr>
                                 else standard_methods ev a clp prog
                         else standard_methods ev a clp prog)
          else standard_methods ev a clp [])"

subsection \<open>create\_gif\<close>

definition create_gif :: "env \<Rightarrow> params \<Rightarrow> outcome" where
  "create_gif ev a =
     (if \<not> cap_opened ev then \<lparr>returned = False, progress = [], encoder = []\<rparr>
      else if \<not> path_exists ev then \<lparr>returned = False, progress = [], encoder = []\<rparr>
      else if \<not> VideoFileClip_available ev
           then \<lparr>returned = False, progress = [], encoder = []\<rparr>
      else if segments a \<noteq> [] then create_gif_segments ev a
      else create_gif_single ev a)"

subsection \<open>save\_file (main.py)\<close>

text \<open>
  The encoder call of \<open>MainWindow.save_file\<close> on the preview frames, from the values of
  the fps spin box, the speed slider (percent), the quality slider (percent) and the loop
  check box.
\<close>

definition save_file_call :: "frame list \<Rightarrow> int \<Rightarrow> int \<Rightarrow> int \<Rightarrow> bool \<Rightarrow> encoder_call" where
  "save_file_call frames fps_spin speed_slider quality_slider loop_checked =
     (let fps_value = of_int fps_spin * (of_int speed_slider / 100);
          quality_value = of_int quality_slider / 100
      in Mimsave Preview_save frames fps_value (py_int (100 - quality_value * 100))
           (if loop_checked then 0 else 1))"

subsection \<open>generate\_preview\<close>

text \<open>
  \<open>_apply_processing\<close> on a decoded frame: the crop \<open>frame[y:y+h, x:x+w]\<close> (slice bounds
  beyond the array are cut off), then the resize when the size differs from the target;
  \<open>None\<close> when \<open>cv2.resize\<close> raises.
\<close>

definition apply_processing ::
  "frame \<Rightarrow> nat \<times> nat \<Rightarrow> (nat \<times> nat \<times> nat \<times> nat) option \<Rightarrow> frame option" where
  "apply_processing frm dims crop =
     (let cropped =
            (case crop of
               None \<Rightarrow> frm
             | Some (x, y, w, h) \<Rightarrow>
                 \<lparr>height = min (y + h) (height frm) - min y (height frm),
                  width = min (x + w) (width frm) - min x (width frm)\<rparr>);
          target_width = fst dims; target_height = snd dims
      in if target_width \<noteq> width cropped \<or> target_height \<noteq> height cropped
         then cv2_resize cropped (target_width, target_height)
         else Some cropped)"

text \<open>How a Python call ends when it ends: with an exception or with a value.\<close>

datatype 'a py_result = Raised | Returned 'a

text \<open>
  The loop \<open>while current_frame < end_frame and frame_count < desired_frames\<close> of both
  branches. It need not end (a step that is not positive, with frames that do not
  decode): not ending is the value \<open>None\<close>.
\<close>

partial_function (option) preview_loop ::
  "env \<Rightarrow> params \<Rightarrow> int \<Rightarrow> int \<Rightarrow> rat \<Rightarrow> rat \<Rightarrow> int \<Rightarrow> frame list
     \<Rightarrow> frame list py_result option" where
  "preview_loop ev a end_frame desired_frames frame_step current_frame frame_count preview_frames =
     (if current_frame < of_int end_frame \<and> frame_count < desired_frames
      then (case read_frame ev (py_int current_frame) of
              None \<Rightarrow>
                preview_loop ev a end_frame desired_frames frame_step
                  (current_frame + frame_step) frame_count preview_frames
            | Some frm \<Rightarrow>
                (case apply_processing frm (dimensions a) (crop_rect a) of
                   None \<Rightarrow> Some Raised
                 | Some processed \<Rightarrow>
                     preview_loop ev a end_frame desired_frames frame_step
                       (current_frame + frame_step) (frame_count + 1)
                       (preview_frames @ [processed])))
      else Some (Returned preview_frames))"

declare preview_loop.simps [code]

text \<open>The frames of one time range appended to \<open>preview_frames\<close>.\<close>

definition preview_range ::
  "env \<Rightarrow> params \<Rightarrow> frame list \<Rightarrow> rat \<times> rat \<Rightarrow> frame list py_result option" where
  "preview_range ev a preview_frames seg =
     (let start_frame = py_int (fst seg * video_fps ev);
          end_frame = py_int (snd seg * video_fps ev);
          seg_duration = snd seg - fst seg;
          desired_frames = py_int (seg_duration * fps a);
          total_frames = end_frame - start_frame;
          frame_step = (if desired_frames > 0
                        then (of_int total_frames / of_int desired_frames) * speed_factor a
                        else 1)
      in preview_loop ev a end_frame desired_frames frame_step (of_int start_frame) 0
           preview_frames)"

fun preview_segments ::
  "env \<Rightarrow> params \<Rightarrow> frame list \<Rightarrow> (rat \<times> rat) list \<Rightarrow> frame list py_result option" where
  "preview_segments ev a preview_frames [] = Some (Returned preview_frames)"
| "preview_segments ev a preview_frames (seg # rest) =
     (case preview_range ev a preview_frames seg of
        None \<Rightarrow> None
      | Some Raised \<Rightarrow> Some Raised
      | Some (Returned preview_frames') \<Rightarrow> preview_segments ev a preview_frames' rest)"

text \<open>What \<open>generate_preview\<close> returns: the bare list of line 622 or the pair of line 696.\<close>

datatype preview_result = Bare_list "frame list" | Frames_and_fps "frame list" rat

definition generate_preview :: "env \<Rightarrow> params \<Rightarrow> preview_result py_result option" where
  "generate_preview ev a =
     (if \<not> cap_opened ev then Some (Returned (Bare_list []))
      else let adjusted_fps = fps a * speed_factor a
           in case (if segments a \<noteq> [] then preview_segments ev a [] (segments a)
                    else preview_range ev a [] (start_time a, end_time a)) of
                None \<Rightarrow> None
              | Some Raised \<Rightarrow> Some Raised
              | Some (Returned preview_frames) \<Rightarrow>
                  Some (Returned (Frames_and_fps preview_frames adjusted_fps)))"

text \<open>\<open>preview_frames, adjusted_fps = result\<close>: a pair unpacks, a list only when it has
  two elements.\<close>

fun unpacks_two :: "preview_result \<Rightarrow> bool" where
  "unpacks_two (Frames_and_fps frames adjusted_fps) = True"
| "unpacks_two (Bare_list frames) = (length frames = 2)"

subsection \<open>The specified quantization level\<close>


subsection \<open>Concrete videos and requests\<close>

text \<open>A clip of the given duration of which every frame decodes to 2 by 2 pixels.\<close>

definition steady_clip :: "rat \<Rightarrow> clip" where
  "steady_clip d = \<lparr>duration = d, get_frame = (\<lambda>t. Some \<lparr>height = 2, width = 2\<rparr>)\<rparr>"


text \<open>A loaded video at 30 frames per second with a working encoder.\<close>

definition steady_env :: env where
  "steady_env =
     \<lparr>cap_opened = True, path_exists = True, VideoFileClip_available = True,
      subclip = (\<lambda>s e. Some (steady_clip (e - s))),
      encoder_accepts = (\<lambda>c. True),
      write_gif_optimized = Written, write_gif_ffmpeg = Written,
      video_fps = 30, read_frame = (\<lambda>n. Some \<lparr>height = 2, width = 2\<rparr>)\<rparr>"


text \<open>No video loaded.\<close>

definition unloaded_env :: env where
  "unloaded_env = steady_env\<lparr>cap_opened := False\<rparr>"

text \<open>Two seconds at 5 frames per second, 2 by 2 pixels, quality 0.9, looping, with a
  progress callback, no segments, normal speed.\<close>

definition plain_request :: params where
  "plain_request =
     \<lparr>start_time = 0, end_time = 2, fps = 5, dimensions = (2, 2), quality = 9 / 10,
      crop_rect = None, loop = True, progress_callback = True, segments = [],
      speed_factor = 1\<rparr>"

text \<open>The segments (0,1) and (1,2) of it.\<close>

definition two_segments_request :: params where
  "two_segments_request = plain_request\<lparr>segments := [(0, 1), (1, 2)]\<rparr>"

text \<open>Seven seconds at 10 frames per second and double speed.\<close>

definition fast_request :: params where
  "fast_request = plain_request\<lparr>end_time := 7, fps := 10, speed_factor := 2\<rparr>"

text \<open>One second at 1 frame per second and double speed, played once.\<close>

definition short_request :: params where
  "short_request = plain_request\<lparr>end_time := 1, fps := 1, speed_factor := 2, loop := False\<rparr>"



text \<open>An empty range.\<close>

definition empty_request :: params where
  "empty_request = plain_request\<lparr>end_time := 0, speed_factor := 3 / 2\<rparr>"

text \<open>A clip of which no frame decodes, and a loaded video that yields it.\<close>

definition blank_clip :: "rat \<Rightarrow> clip" where
  "blank_clip d = \<lparr>duration = d, get_frame = (\<lambda>t. None)\<rparr>"

definition blank_env :: env where
  "blank_env = steady_env\<lparr>subclip := (\<lambda>s e. Some (blank_clip (e - s)))\<rparr>"
section \<open>Properties of merging\<close>

lemma foldl_merge_step: "foldl merge_step (acc @ [p]) xs = acc @ mrg p xs"
proof (induction xs arbitrary: acc p)
  case Nil
  then show ?case by simp
next
  case (Cons x xs)
  show ?case
  proof (cases "fst x \<le> snd p")
    case True
    then have "merge_step (acc @ [p]) x = acc @ [(fst p, max (snd p) (snd x))]"
      by (simp add: merge_step_def)
    with True Cons.IH[of acc] show ?thesis by simp
  next
    case False
    then have "merge_step (acc @ [p]) x = (acc @ [p]) @ [x]"
      by (simp add: merge_step_def)
    with False Cons.IH[of "acc @ [p]" x] show ?thesis by simp
  qed
qed

lemma merge_sorted_eq:
  "merge_overlapping_segments segs =
     (case sort segs of [] \<Rightarrow> [] | p # xs \<Rightarrow> mrg p xs)"
proof (cases "sort segs")
  case Nil
  then have "segs = []" by (metis length_sort length_0_conv)
  then show ?thesis by (simp add: merge_overlapping_segments_def)
next
  case (Cons p xs)
  then have ne: "segs \<noteq> []" by auto
  have "foldl merge_step ([] @ [p]) xs = [] @ mrg p xs" by (rule foldl_merge_step)
  with Cons ne show ?thesis by (simp add: merge_overlapping_segments_def)
qed

lemma mrg_lower_bound:
  "\<forall>y\<in>set (x # xs). q \<le> y \<Longrightarrow> \<forall>z\<in>set (mrg x xs). q \<le> z"
proof (induction xs arbitrary: x)
  case Nil
  then show ?case by simp
next
  case (Cons y ys)
  show ?case
  proof (cases "fst y \<le> snd x")
    case True
    have "q \<le> x" using Cons.prems by simp
    also have "x \<le> (fst x, max (snd x) (snd y))"
      by (cases x) (simp add: less_eq_prod_def)
    finally have "q \<le> (fst x, max (snd x) (snd y))" .
    with Cons.prems have "\<forall>z\<in>set ((fst x, max (snd x) (snd y)) # ys). q \<le> z" by simp
    from Cons.IH[OF this] True show ?thesis by simp
  next
    case False
    from Cons.prems have "\<forall>z\<in>set (y # ys). q \<le> z" by simp
    from Cons.IH[OF this] False Cons.prems show ?thesis by simp
  qed
qed

lemma sorted_merged_head:
  assumes "sorted (p # x # xs)"
  shows "sorted ((fst p, max (snd p) (snd x)) # xs)"
proof -
  have "\<forall>y\<in>set xs. (fst p, max (snd p) (snd x)) \<le> y"
  proof
    fix y assume y: "y \<in> set xs"
    with assms have "p \<le> x" "x \<le> y" "p \<le> y" by auto
    then show "(fst p, max (snd p) (snd x)) \<le> y"
      by (cases p; cases x; cases y) (auto simp: less_eq_prod_def)
  qed
  moreover have "sorted xs" using assms by simp
  ultimately show ?thesis by simp
qed

lemma sorted_mrg: "sorted (p # xs) \<Longrightarrow> sorted (mrg p xs)"
proof (induction xs arbitrary: p)
  case Nil
  then show ?case by simp
next
  case (Cons x xs)
  show ?case
  proof (cases "fst x \<le> snd p")
    case True
    have "sorted ((fst p, max (snd p) (snd x)) # xs)"
      using Cons.prems by (rule sorted_merged_head)
    from Cons.IH[OF this] True show ?thesis by simp
  next
    case False
    have "sorted (x # xs)" using Cons.prems by simp
    then have s: "sorted (mrg x xs)" by (rule Cons.IH)
    have "\<forall>y\<in>set (x # xs). p \<le> y" using Cons.prems by simp
    then have "\<forall>z\<in>set (mrg x xs). p \<le> z" by (rule mrg_lower_bound)
    with s False show ?thesis by simp
  qed
qed

lemma mrg_fst_lower: "sorted (x # xs) \<Longrightarrow> \<forall>z\<in>set (mrg x xs). fst x \<le> fst z"
proof -
  assume "sorted (x # xs)"
  then have "\<forall>y\<in>set (x # xs). x \<le> y" by auto
  then have "\<forall>z\<in>set (mrg x xs). x \<le> z" by (rule mrg_lower_bound)
  then show ?thesis by (auto simp: less_eq_prod_def)
qed

lemma non_overlapping_mrg: "sorted (p # xs) \<Longrightarrow> non_overlapping (mrg p xs)"
proof (induction xs arbitrary: p)
  case Nil
  then show ?case by (simp add: non_overlapping_def)
next
  case (Cons x xs)
  show ?case
  proof (cases "fst x \<le> snd p")
    case True
    have "sorted ((fst p, max (snd p) (snd x)) # xs)"
      using Cons.prems by (rule sorted_merged_head)
    from Cons.IH[OF this] True show ?thesis by simp
  next
    case False
    have sx: "sorted (x # xs)" using Cons.prems by simp
    then have n: "non_overlapping (mrg x xs)" by (rule Cons.IH)
    from sx have "\<forall>z\<in>set (mrg x xs). fst x \<le> fst z" by (rule mrg_fst_lower)
    with False have "\<forall>z\<in>set (mrg x xs). snd p < fst z" by auto
    with n False show ?thesis by (simp add: non_overlapping_def)
  qed
qed

lemma mrg_separated: "non_overlapping (p # xs) \<Longrightarrow> mrg p xs = p # xs"
  by (induction xs arbitrary: p) (auto simp: non_overlapping_def)

lemma covers_Cons: "covers (r # rs) t \<longleftrightarrow> (fst r \<le> t \<and> t < snd r) \<or> covers rs t"
  by (simp add: covers_def)

lemma covers_set: "set xs = set ys \<Longrightarrow> covers xs t = covers ys t"
  by (simp add: covers_def list_ex_iff)

lemma covers_mrg: "sorted (p # xs) \<Longrightarrow> covers (mrg p xs) t = covers (p # xs) t"
proof (induction xs arbitrary: p)
  case Nil
  then show ?case by simp
next
  case (Cons x xs)
  show ?case
  proof (cases "fst x \<le> snd p")
    case True
    have px: "fst p \<le> fst x" using Cons.prems by (auto simp: less_eq_prod_def)
    have "sorted ((fst p, max (snd p) (snd x)) # xs)"
      using Cons.prems by (rule sorted_merged_head)
    from Cons.IH[OF this] True
    have "covers (mrg p (x # xs)) t = covers ((fst p, max (snd p) (snd x)) # xs) t" by simp
    also have "\<dots> = covers (p # x # xs) t"
      using True px by (auto simp: covers_Cons max_def)
    finally show ?thesis .
  next
    case False
    have "sorted (x # xs)" using Cons.prems by simp
    from Cons.IH[OF this] False show ?thesis by (simp add: covers_Cons)
  qed
qed

lemma merge_cases:
  obtains "segs = []" "merge_overlapping_segments segs = []"
  | p xs where "sort segs = p # xs" "merge_overlapping_segments segs = mrg p xs"
proof (cases "sort segs")
  case Nil
  then show ?thesis using that(1) by (simp add: merge_sorted_eq) (metis length_sort length_0_conv)
next
  case (Cons p xs)
  then show ?thesis using that(2) by (simp add: merge_sorted_eq)
qed

lemma sorted_merge: "sorted (merge_overlapping_segments segs)"
proof (cases segs rule: merge_cases)
  case 1
  then show ?thesis by simp
next
  case (2 p xs)
  have "sorted (sort segs)" by simp
  with 2 show ?thesis by (simp only: sorted_mrg)
qed

lemma non_overlapping_merge: "non_overlapping (merge_overlapping_segments segs)"
proof (cases segs rule: merge_cases)
  case 1
  then show ?thesis by (simp add: non_overlapping_def)
next
  case (2 p xs)
  have "sorted (sort segs)" by simp
  with 2 show ?thesis by (simp only: non_overlapping_mrg)
qed

lemma covers_merge: "covers (merge_overlapping_segments segs) t = covers segs t"
proof (cases segs rule: merge_cases)
  case 1
  then show ?thesis by simp
next
  case (2 p xs)
  have "sorted (sort segs)" by simp
  with 2 have "covers (merge_overlapping_segments segs) t = covers (sort segs) t"
    by (simp only: covers_mrg)
  also have "\<dots> = covers segs t" by (rule covers_set) simp
  finally show ?thesis .
qed

lemma merge_fixpoint:
  assumes "sorted xs" "non_overlapping xs"
  shows "merge_overlapping_segments xs = xs"
proof (cases xs)
  case Nil
  then show ?thesis by (simp add: merge_overlapping_segments_def)
next
  case (Cons p ys)
  from assms(1) have "sort xs = xs" by (simp add: sort_key_id_if_sorted)
  with Cons assms(2) show ?thesis by (simp add: merge_sorted_eq mrg_separated)
qed

lemma sorted_starts: "sorted xs \<Longrightarrow> sorted (map fst xs)"
  by (induction xs) (auto simp: less_eq_prod_def)

section \<open>Properties of the exclusion walk\<close>








section \<open>The walk over merged and unmerged exclusions\<close>









section \<open>Claims about the timeline's segment planning\<close>










text \<open>
  C6. For any list of time ranges, \<open>merge_overlapping_segments\<close> returns ranges sorted by
  start of which each ends strictly before every later one starts; merging is idempotent;
  and the merged ranges cover exactly the instants that the original ranges cover.
\<close>

theorem merge_overlapping_segments_canonical:
  "sorted (map fst (merge_overlapping_segments segs))
   \<and> non_overlapping (merge_overlapping_segments segs)
   \<and> merge_overlapping_segments (merge_overlapping_segments segs)
       = merge_overlapping_segments segs
   \<and> (\<forall>t. covers (merge_overlapping_segments segs) t = covers segs t)"
  using sorted_merge[of segs] non_overlapping_merge[of segs]
  by (simp add: sorted_starts merge_fixpoint covers_merge)

theorem merge_overlapping_segments_canonical_witness:
  "merge_overlapping_segments [(6, 7), (1, 3), (2, 5), (5, 5), (9, 8::rat)] = [(1, 5), (6, 7), (9, 8)]
   \<and> sorted (map fst (merge_overlapping_segments [(6, 7), (1, 3), (2, 5), (5, 5), (9, 8::rat)]))
   \<and> non_overlapping (merge_overlapping_segments [(6, 7), (1, 3), (2, 5), (5, 5), (9, 8::rat)])
   \<and> merge_overlapping_segments (merge_overlapping_segments [(6, 7), (1, 3), (2, 5), (5, 5), (9, 8::rat)])
       = [(1, 5), (6, 7), (9, 8)]"
proof -
  have m: "merge_overlapping_segments [(6, 7), (1, 3), (2, 5), (5, 5), (9, 8::rat)]
      = [(1, 5), (6, 7), (9, 8)]"
    by (simp add: merge_overlapping_segments_def merge_step_def Let_def)
  from merge_overlapping_segments_canonical[of "[(6, 7), (1, 3), (2, 5), (5, 5), (9, 8::rat)]"] m
  show ?thesis by simp
qed

section \<open>Frame sampling\<close>







section \<open>The encoder invocations of create\_gif\<close>

lemma cv2_resize_shape:
  "cv2_resize frm (width f0, height f0) = Some r \<Longrightarrow> shape r = shape f0"
  by (auto simp: cv2_resize_def shape_def split: if_splits)

lemma make_compatible_shapes:
  "\<forall>frm\<in>set (make_compatible fs). shape frm = shape (hd fs)"
  by (auto simp: make_compatible_def Let_def cv2_resize_shape split: if_splits option.splits)

lemma make_compatible_hd: "fs \<noteq> [] \<Longrightarrow> hd (make_compatible fs) = hd fs"
  by (cases fs) (simp_all add: make_compatible_def)

lemma make_compatible_not_Nil: "fs \<noteq> [] \<Longrightarrow> make_compatible fs \<noteq> []"
  by (cases fs) (simp_all add: make_compatible_def)

lemma make_compatible_uniform: "fs \<noteq> [] \<Longrightarrow> uniform_shape (make_compatible fs)"
  using make_compatible_shapes[of fs]
  by (simp add: uniform_shape_def list_all_iff make_compatible_hd)

lemma standard_methods_calls:
  assumes "c \<in> set (encoder (standard_methods ev a clp prog))"
  shows "c = Write_gif_optimized (fps a) (py_int ((1 - quality a) * 100)) (loop_param a)
       \<or> c = Write_gif_ffmpeg (fps a) (loop_param a)
       \<or> (\<exists>fs. fs \<noteq> [] \<and> c = Mimsave Direct_fallback fs (fps a) (quantizer_of a) (loop_param a))"
  using assms
  by (auto simp: standard_methods_def Let_def
      split: write_outcome.splits sum.splits if_splits)

lemma create_gif_single_calls:
  assumes "c \<in> set (encoder (create_gif_single ev a))"
  shows "c = Write_gif_optimized (fps a) (py_int ((1 - quality a) * 100)) (loop_param a)
       \<or> c = Write_gif_ffmpeg (fps a) (loop_param a)
       \<or> (\<exists>fs. fs \<noteq> [] \<and> c = Mimsave Direct_fallback fs (fps a) (quantizer_of a) (loop_param a))
       \<or> (\<exists>fs. fs \<noteq> [] \<and> uniform_shape fs
              \<and> c = Mimsave Speed_path fs (fps a) (quantizer_of a) (loop_param a))"
proof (cases "subclip ev (start_time a) (end_time a)")
  case None
  with assms show ?thesis by (simp add: create_gif_single_def)
next
  case (Some clp)
  show ?thesis
  proof (cases "c \<in> set (encoder (standard_methods ev a clp []))
              \<or> (\<exists>prog. c \<in> set (encoder (standard_methods ev a clp prog)))")
    case True
    then show ?thesis using standard_methods_calls by blast
  next
    case False
    with assms Some show ?thesis
      by (auto simp: create_gif_single_def Let_def make_compatible_uniform
          split: option.splits if_splits)
  qed
qed

lemma create_gif_segments_calls:
  assumes "c \<in> set (encoder (create_gif_segments ev a))"
  shows "\<exists>fs. fs \<noteq> [] \<and> uniform_shape fs
           \<and> c = Mimsave Segments_path fs (fps a) (quantizer_of a) (loop_param a)"
  using assms
  by (auto simp: create_gif_segments_def Let_def make_compatible_uniform
      split: sum.splits if_splits)

lemma create_gif_calls:
  assumes "c \<in> set (encoder (create_gif ev a))"
  shows "c = Write_gif_optimized (fps a) (py_int ((1 - quality a) * 100)) (loop_param a)
       \<or> c = Write_gif_ffmpeg (fps a) (loop_param a)
       \<or> (\<exists>fs. fs \<noteq> [] \<and> c = Mimsave Direct_fallback fs (fps a) (quantizer_of a) (loop_param a))
       \<or> (\<exists>fs. fs \<noteq> [] \<and> uniform_shape fs
              \<and> c = Mimsave Speed_path fs (fps a) (quantizer_of a) (loop_param a))
       \<or> (\<exists>fs. fs \<noteq> [] \<and> uniform_shape fs
              \<and> c = Mimsave Segments_path fs (fps a) (quantizer_of a) (loop_param a))"
proof (cases "cap_opened ev \<and> path_exists ev \<and> VideoFileClip_available ev")
  case False
  with assms show ?thesis by (auto simp: create_gif_def split: if_splits)
next
  case True
  show ?thesis
  proof (cases "segments a \<noteq> []")
    case True
    with assms \<open>cap_opened ev \<and> path_exists ev \<and> VideoFileClip_available ev\<close>
    have "c \<in> set (encoder (create_gif_segments ev a))" by (simp add: create_gif_def)
    then show ?thesis using create_gif_segments_calls by blast
  next
    case False
    with assms \<open>cap_opened ev \<and> path_exists ev \<and> VideoFileClip_available ev\<close>
    have "c \<in> set (encoder (create_gif_single ev a))" by (simp add: create_gif_def)
    then show ?thesis using create_gif_single_calls by blast
  qed
qed

section \<open>generate\_preview returns\<close>

lemma preview_loop_exit:
  "\<not> (cur < of_int e \<and> cnt < des) \<Longrightarrow>
   preview_loop ev a e des step cur cnt fs = Some (Returned fs)"
  by (subst preview_loop.simps) auto

lemma preview_loop_total:
  assumes "0 < step"
  shows "nat \<lceil>(of_int e - cur) / step\<rceil> \<le> n \<Longrightarrow>
     \<exists>r. preview_loop ev a e des step cur cnt fs = Some r
        \<and> ((\<forall>k frm. read_frame ev k = Some frm
               \<longrightarrow> apply_processing frm (dimensions a) (crop_rect a) \<noteq> None)
            \<longrightarrow> r \<noteq> Raised)"
proof (induction n arbitrary: cur cnt fs)
  case 0
  then have "(of_int e - cur) / step \<le> 0" by (simp add: ceiling_le_zero)
  then have "of_int e \<le> cur" using assms by (simp add: divide_le_0_iff)
  then show ?case by (simp add: preview_loop_exit)
next
  case (Suc n)
  show ?case
  proof (cases "cur < of_int e \<and> cnt < des")
    case False
    then show ?thesis by (simp add: preview_loop_exit)
  next
    case True
    have "(of_int e - (cur + step)) / step = (of_int e - cur) / step - 1"
      using assms by (simp add: field_simps)
    then have "\<lceil>(of_int e - (cur + step)) / step\<rceil> = \<lceil>(of_int e - cur) / step\<rceil> - 1"
      by simp
    with Suc.prems have m: "nat \<lceil>(of_int e - (cur + step)) / step\<rceil> \<le> n" by simp
    show ?thesis
    proof (cases "read_frame ev (py_int cur)")
      case None
      from Suc.IH[OF m, of cnt fs] True None show ?thesis
        by (subst preview_loop.simps) simp
    next
      case (Some frm)
      show ?thesis
      proof (cases "apply_processing frm (dimensions a) (crop_rect a)")
        case None
        with True Some show ?thesis
          by (subst preview_loop.simps) auto
      next
        case (Some processed)
        from Suc.IH[OF m, of "cnt + 1" "fs @ [processed]"] True \<open>read_frame ev (py_int cur) = Some frm\<close> Some
        show ?thesis by (subst preview_loop.simps) simp
      qed
    qed
  qed
qed

lemma preview_range_total:
  assumes "0 < speed_factor a"
  shows "\<exists>r. preview_range ev a fs seg = Some r
        \<and> ((\<forall>k frm. read_frame ev k = Some frm
               \<longrightarrow> apply_processing frm (dimensions a) (crop_rect a) \<noteq> None)
            \<longrightarrow> r \<noteq> Raised)"
proof -
  let ?sf = "py_int (fst seg * video_fps ev)"
  let ?ef = "py_int (snd seg * video_fps ev)"
  let ?des = "py_int ((snd seg - fst seg) * fps a)"
  let ?step = "if ?des > 0 then (of_int (?ef - ?sf) / of_int ?des) * speed_factor a else (1::rat)"
  have eq: "preview_range ev a fs seg = preview_loop ev a ?ef ?des ?step (of_int ?sf) 0 fs"
    by (simp add: preview_range_def Let_def)
  show ?thesis
  proof (cases "0 < ?step")
    case True
    show ?thesis unfolding eq by (rule preview_loop_total[OF True order_refl])
  next
    case False
    then have d: "?des > 0" by (auto split: if_splits)
    with False have "of_int (?ef - ?sf) / rat_of_int ?des * speed_factor a \<le> 0" by simp
    then have "rat_of_int (?ef - ?sf) \<le> 0"
      using d assms by (simp add: mult_le_0_iff divide_le_0_iff)
    then have "\<not> (rat_of_int ?sf < of_int ?ef \<and> 0 < ?des)" by simp
    then show ?thesis unfolding eq by (simp add: preview_loop_exit)
  qed
qed

lemma preview_segments_total:
  assumes "0 < speed_factor a"
  shows "\<exists>r. preview_segments ev a fs segs = Some r
        \<and> ((\<forall>k frm. read_frame ev k = Some frm
               \<longrightarrow> apply_processing frm (dimensions a) (crop_rect a) \<noteq> None)
            \<longrightarrow> r \<noteq> Raised)"
proof (induction segs arbitrary: fs)
  case Nil
  then show ?case by simp
next
  case (Cons seg segs)
  from preview_range_total[OF assms, of ev fs seg] obtain r where
    r: "preview_range ev a fs seg = Some r"
       "(\<forall>k frm. read_frame ev k = Some frm
               \<longrightarrow> apply_processing frm (dimensions a) (crop_rect a) \<noteq> None) \<longrightarrow> r \<noteq> Raised"
    by blast
  show ?case
  proof (cases r)
    case Raised
    with r show ?thesis by auto
  next
    case (Returned fs')
    with r Cons.IH[of fs'] show ?thesis by auto
  qed
qed

lemma generate_preview_total:
  assumes "cap_opened ev" "0 < speed_factor a"
  shows "\<exists>r. (if segments a \<noteq> [] then preview_segments ev a [] (segments a)
              else preview_range ev a [] (start_time a, end_time a)) = Some r
        \<and> ((\<forall>k frm. read_frame ev k = Some frm
               \<longrightarrow> apply_processing frm (dimensions a) (crop_rect a) \<noteq> None)
            \<longrightarrow> r \<noteq> Raised)"
  using preview_segments_total[OF assms(2)] preview_range_total[OF assms(2)] by simp

lemma generate_preview_pair:
  assumes "cap_opened ev"
  shows "generate_preview ev a = None \<or> generate_preview ev a = Some Raised
       \<or> (\<exists>fs. generate_preview ev a = Some (Returned (Frames_and_fps fs (fps a * speed_factor a))))"
  using assms
  by (auto simp: generate_preview_def Let_def split: option.splits py_result.splits)

text \<open>
  C10. \<open>generate_preview\<close> has two result shapes. With no video loaded it returns the bare
  empty list. With a video loaded and a positive speed factor it ends, and unless the
  resize of a frame raises it returns the pair of the frames and \<open>fps * speed_factor\<close>,
  also when there are no frames; whenever no resize can raise it does return that pair.
  So unpacking the returned value into two succeeds exactly when a video is loaded.
\<close>

theorem generate_preview_result_shape:
  "(\<not> cap_opened ev \<longrightarrow> generate_preview ev a = Some (Returned (Bare_list [])))
   \<and> (cap_opened ev \<and> 0 < speed_factor a \<longrightarrow>
        generate_preview ev a = Some Raised
        \<or> (\<exists>fs. generate_preview ev a
                 = Some (Returned (Frames_and_fps fs (fps a * speed_factor a)))))
   \<and> (cap_opened ev \<and> 0 < speed_factor a
        \<and> (\<forall>k frm. read_frame ev k = Some frm
               \<longrightarrow> apply_processing frm (dimensions a) (crop_rect a) \<noteq> None) \<longrightarrow>
        (\<exists>fs. generate_preview ev a
                 = Some (Returned (Frames_and_fps fs (fps a * speed_factor a)))))
   \<and> (\<forall>r. generate_preview ev a = Some (Returned r) \<longrightarrow> (unpacks_two r \<longleftrightarrow> cap_opened ev))"
proof (intro conjI impI allI)
  assume "\<not> cap_opened ev"
  then show "generate_preview ev a = Some (Returned (Bare_list []))"
    by (simp add: generate_preview_def)
next
  assume h: "cap_opened ev \<and> 0 < speed_factor a"
  with generate_preview_total[of ev a] obtain r where
    "(if segments a \<noteq> [] then preview_segments ev a [] (segments a)
      else preview_range ev a [] (start_time a, end_time a)) = Some r" by blast
  with h show "generate_preview ev a = Some Raised
        \<or> (\<exists>fs. generate_preview ev a
                 = Some (Returned (Frames_and_fps fs (fps a * speed_factor a))))"
    by (cases r) (auto simp: generate_preview_def Let_def)
next
  assume h: "cap_opened ev \<and> 0 < speed_factor a
        \<and> (\<forall>k frm. read_frame ev k = Some frm
               \<longrightarrow> apply_processing frm (dimensions a) (crop_rect a) \<noteq> None)"
  with generate_preview_total[of ev a] obtain r where
    "(if segments a \<noteq> [] then preview_segments ev a [] (segments a)
      else preview_range ev a [] (start_time a, end_time a)) = Some r" "r \<noteq> Raised" by blast
  with h show "\<exists>fs. generate_preview ev a
                 = Some (Returned (Frames_and_fps fs (fps a * speed_factor a)))"
    by (cases r) (auto simp: generate_preview_def Let_def)
next
  fix r assume r: "generate_preview ev a = Some (Returned r)"
  show "unpacks_two r \<longleftrightarrow> cap_opened ev"
  proof (cases "cap_opened ev")
    case True
    with generate_preview_pair[OF True, of a] r show ?thesis by auto
  next
    case False
    with r show ?thesis by (auto simp: generate_preview_def)
  qed
qed

theorem generate_preview_result_shape_witness:
  "\<not> cap_opened unloaded_env
   \<and> generate_preview unloaded_env plain_request = Some (Returned (Bare_list []))
   \<and> \<not> unpacks_two (Bare_list [])
   \<and> cap_opened steady_env \<and> 0 < speed_factor empty_request
   \<and> generate_preview steady_env empty_request = Some (Returned (Frames_and_fps [] (15 / 2)))
   \<and> unpacks_two (Frames_and_fps [] (15 / 2))"
proof -
  have u: "\<not> cap_opened unloaded_env" by (simp add: unloaded_env_def steady_env_def)
  have l: "cap_opened steady_env" "0 < speed_factor empty_request"
    "fps empty_request * speed_factor empty_request = 15 / 2"
    by (simp_all add: steady_env_def empty_request_def plain_request_def)
  have e: "generate_preview steady_env empty_request = Some (Returned (Frames_and_fps [] (15 / 2)))"
    by code_simp
  from generate_preview_result_shape[of unloaded_env plain_request] u
  have a: "generate_preview unloaded_env plain_request = Some (Returned (Bare_list []))" by blast
  from generate_preview_result_shape[of steady_env empty_request] e l(1)
  have b: "unpacks_two (Frames_and_fps [] (15 / 2))" by blast
  from u l a b e show ?thesis by simp
qed

section \<open>Claims about the encoder boundary of create\_gif\<close>




text \<open>
  C4, as claimed: an export of a single range reports \<open>fps * speed_factor\<close> to the
  encoder. \<open>create_gif\<close> without segments, at 10 frames per second and double speed,
  passes 10 to the encoder, not 20.
\<close>

theorem create_gif_single_range_fps_counterexample:
  "segments fast_request = []
   \<and> map call_fps (encoder (create_gif steady_env fast_request)) = [10]
   \<and> fps fast_request * speed_factor fast_request = 20"
  by code_simp

text \<open>
  C4, amended: \<open>generate_preview\<close> reports \<open>fps * speed_factor\<close> to the player, for a single
  range and for segments alike (and it does return, for a positive speed factor, when no
  resize raises), and \<open>save_file\<close> encodes the preview frames at
  \<open>fps * speed\<close>; \<open>create_gif\<close> passes the flat \<open>fps\<close> to the encoder in every invocation,
  for segments and for a single range.
\<close>

theorem reported_frame_rates:
  "(\<forall>c\<in>set (encoder (create_gif ev a)). call_fps c = fps a)
   \<and> (\<forall>fs adj. generate_preview ev a = Some (Returned (Frames_and_fps fs adj))
         \<longrightarrow> adj = fps a * speed_factor a)
   \<and> (cap_opened ev \<and> 0 < speed_factor a
        \<and> (\<forall>k frm. read_frame ev k = Some frm
               \<longrightarrow> apply_processing frm (dimensions a) (crop_rect a) \<noteq> None) \<longrightarrow>
        (\<exists>fs. generate_preview ev a
                 = Some (Returned (Frames_and_fps fs (fps a * speed_factor a)))))
   \<and> call_fps (save_file_call frames fps_spin speed_slider quality_slider loop_checked)
       = of_int fps_spin * (of_int speed_slider / 100)"
proof (intro conjI ballI allI impI)
  fix c assume "c \<in> set (encoder (create_gif ev a))"
  from create_gif_calls[OF this] show "call_fps c = fps a" by auto
next
  fix fs adj assume r: "generate_preview ev a = Some (Returned (Frames_and_fps fs adj))"
  then have "cap_opened ev" by (auto simp: generate_preview_def split: if_splits)
  from generate_preview_pair[OF this, of a] r show "adj = fps a * speed_factor a" by auto
next
  assume h: "cap_opened ev \<and> 0 < speed_factor a
        \<and> (\<forall>k frm. read_frame ev k = Some frm
               \<longrightarrow> apply_processing frm (dimensions a) (crop_rect a) \<noteq> None)"
  with generate_preview_total[of ev a] obtain r where
    "(if segments a \<noteq> [] then preview_segments ev a [] (segments a)
      else preview_range ev a [] (start_time a, end_time a)) = Some r" "r \<noteq> Raised" by blast
  with h show "\<exists>fs. generate_preview ev a
                 = Some (Returned (Frames_and_fps fs (fps a * speed_factor a)))"
    by (cases r) (auto simp: generate_preview_def Let_def)
next
  show "call_fps (save_file_call frames fps_spin speed_slider quality_slider loop_checked)
       = of_int fps_spin * (of_int speed_slider / 100)"
    by (simp add: save_file_call_def Let_def)
qed

theorem reported_frame_rates_witness:
  "list_all (\<lambda>c. call_fps c = 5) (encoder (create_gif steady_env two_segments_request))
   \<and> encoder (create_gif steady_env two_segments_request) \<noteq> []
   \<and> generate_preview steady_env empty_request = Some (Returned (Frames_and_fps [] (15 / 2)))
   \<and> fps empty_request * speed_factor empty_request = 15 / 2"
proof -
  have f: "fps two_segments_request = 5"
    by (simp add: two_segments_request_def plain_request_def)
  have n: "encoder (create_gif steady_env two_segments_request) \<noteq> []" by code_simp
  have e: "generate_preview steady_env empty_request = Some (Returned (Frames_and_fps [] (15 / 2)))"
    by code_simp
  from reported_frame_rates[of steady_env two_segments_request]
  have a: "list_all (\<lambda>c. call_fps c = 5) (encoder (create_gif steady_env two_segments_request))"
    unfolding f by (simp add: list_all_iff)
  from reported_frame_rates[of steady_env empty_request] e
  have b: "15 / 2 = fps empty_request * speed_factor empty_request" by blast
  from a n e b show ?thesis by simp
qed

section \<open>The progress reports of create\_gif\<close>

lemma py_int_bounds: "0 \<le> x \<Longrightarrow> 0 \<le> py_int x \<and> rat_of_int (py_int x) \<le> x"
  by (simp add: py_int_def)

lemma report_percent:
  assumes "\<forall>v\<in>set p. 0 \<le> v \<and> v \<le> 100" "0 \<le> x" "x \<le> 100"
  shows "\<forall>v\<in>set (report a p x). 0 \<le> v \<and> v \<le> 100"
  using assms by (auto simp: report_def)

lemma report_silent: "\<not> progress_callback a \<Longrightarrow> report a p x = p"
  by (simp add: report_def)

lemma capped_percent: "0 \<le> x \<Longrightarrow> 0 \<le> min 89 (py_int x) \<and> min 89 (py_int x) \<le> 100"
  using py_int_bounds[of x] by (simp add: min_def)

lemma segment_step_percent:
  assumes "0 < fc" "\<forall>v\<in>set (snd st). 0 \<le> v \<and> v \<le> 100"
  shows "\<forall>v\<in>set (snd (segment_frame_step clp a i n fc st ft)). 0 \<le> v \<and> v \<le> 100"
proof (cases "fetch_segment_frame clp a (snd ft)")
  case None
  then show ?thesis using assms(2) by (simp add: segment_frame_step_def)
next
  case (Some frm)
  define x where "x = 40 + (rat_of_nat i / of_nat n + (of_nat (fst ft) / of_int fc) / of_nat n) * 50"
  have "0 \<le> rat_of_nat i / of_nat n" by simp
  moreover have "0 \<le> (rat_of_nat (fst ft) / of_int fc) / of_nat n" using assms(1) by simp
  ultimately have "0 \<le> (rat_of_nat i / of_nat n + (of_nat (fst ft) / of_int fc) / of_nat n) * 50"
    by (intro mult_nonneg_nonneg add_nonneg_nonneg) simp_all
  then have "0 \<le> x" unfolding x_def by linarith
  then have c: "0 \<le> min 89 (py_int x)" "min 89 (py_int x) \<le> 100"
    using capped_percent[of x] by blast+
  have r: "\<forall>v\<in>set (report a (snd st) (min 89 (py_int x))). 0 \<le> v \<and> v \<le> 100"
    using assms(2) c by (rule report_percent)
  have "snd (segment_frame_step clp a i n fc st ft)
      = (if fst ft mod 5 = 0 then report a (snd st) (min 89 (py_int x)) else snd st)"
    unfolding segment_frame_step_def x_def using Some by simp
  with r assms(2) show ?thesis by (cases "fst ft mod 5 = 0") presburger+
qed

lemma segment_fold_percent:
  assumes "0 < fc" "\<forall>v\<in>set (snd st). 0 \<le> v \<and> v \<le> 100"
  shows "\<forall>v\<in>set (snd (foldl (segment_frame_step clp a i n fc) st plan)). 0 \<le> v \<and> v \<le> 100"
  using assms(2)
proof (induction plan arbitrary: st)
  case Nil
  then show ?case by simp
next
  case (Cons ft plan)
  have "\<forall>v\<in>set (snd (segment_frame_step clp a i n fc st ft)). 0 \<le> v \<and> v \<le> 100"
    using assms(1) Cons.prems by (rule segment_step_percent)
  then have "\<forall>v\<in>set (snd (foldl (segment_frame_step clp a i n fc)
                 (segment_frame_step clp a i n fc st ft) plan)). 0 \<le> v \<and> v \<le> 100"
    by (rule Cons.IH)
  then show ?case by simp
qed

lemma segment_plan_percent:
  assumes "\<forall>v\<in>set (snd st). 0 \<le> v \<and> v \<le> 100"
  shows "\<forall>v\<in>set (snd (foldl (segment_frame_step clp a i n fc) st (sample_plan d fc))).
           0 \<le> v \<and> v \<le> 100"
proof (cases "0 < fc")
  case True
  then show ?thesis using assms by (rule segment_fold_percent)
next
  case False
  then show ?thesis using assms by (simp add: sample_plan_def)
qed

lemma segment_silent:
  assumes "\<not> progress_callback a"
  shows "snd (foldl (segment_frame_step clp a i n fc) st plan) = snd st"
proof (induction plan arbitrary: st)
  case Nil
  then show ?case by simp
next
  case (Cons ft plan)
  have "snd (segment_frame_step clp a i n fc st ft) = snd st"
    using assms by (cases "fetch_segment_frame clp a (snd ft)")
      (simp_all add: segment_frame_step_def report_def)
  with Cons.IH[of "segment_frame_step clp a i n fc st ft"] show ?case by simp
qed

lemma process_segment_percent:
  assumes "i < n" "\<forall>v\<in>set (snd st). 0 \<le> v \<and> v \<le> 100"
  shows "case process_segment ev a n st (i, seg) of
           Inl p \<Rightarrow> \<forall>v\<in>set p. 0 \<le> v \<and> v \<le> 100
         | Inr st' \<Rightarrow> \<forall>v\<in>set (snd st'). 0 \<le> v \<and> v \<le> 100"
proof -
  let ?x = "rat_of_nat i / of_nat n * 40"
  have "0 \<le> ?x" by simp
  moreover have "?x \<le> 40" using assms(1) by (simp add: divide_le_eq)
  ultimately have "0 \<le> py_int ?x" "py_int ?x \<le> 100"
    using py_int_bounds[of ?x] by linarith+
  with assms(2) have p1: "\<forall>v\<in>set (report a (snd st) (py_int ?x)). 0 \<le> v \<and> v \<le> 100"
    by (intro report_percent) auto
  have p2: "\<forall>v\<in>set (snd (foldl (segment_frame_step clp a i n fc)
               ([], report a (snd st) (py_int ?x)) (sample_plan d fc))). 0 \<le> v \<and> v \<le> 100"
    for clp fc d
    using p1 by (intro segment_plan_percent) simp
  show ?thesis
    using p1 p2
    by (simp add: process_segment_def Let_def split: option.splits sum.splits)
qed

lemma process_segments_percent:
  assumes "\<forall>x\<in>set isegs. fst x < n" "\<forall>v\<in>set (snd st). 0 \<le> v \<and> v \<le> 100"
  shows "case process_segments ev a n st isegs of
           Inl p \<Rightarrow> \<forall>v\<in>set p. 0 \<le> v \<and> v \<le> 100
         | Inr st' \<Rightarrow> \<forall>v\<in>set (snd st'). 0 \<le> v \<and> v \<le> 100"
  using assms
proof (induction isegs arbitrary: st)
  case Nil
  then show ?case by simp
next
  case (Cons iseg isegs)
  obtain i seg where iseg: "iseg = (i, seg)" by (cases iseg)
  with Cons.prems have "i < n" by simp
  from process_segment_percent[OF this Cons.prems(2), of ev a seg]
  show ?case using Cons.IH Cons.prems(1) iseg
    by (cases "process_segment ev a n st (i, seg)") simp_all
qed

lemma create_gif_segments_percent:
  "\<forall>v\<in>set (progress (create_gif_segments ev a)). 0 \<le> v \<and> v \<le> 100"
proof -
  have "\<forall>x\<in>set (zip [0..<length (segments a)] (segments a)). fst x < length (segments a)"
    by (auto dest: set_zip_leftD)
  from process_segments_percent[OF this, of "([], [])" ev a]
  show ?thesis
    by (auto simp: create_gif_segments_def Let_def report_def split: sum.splits)
qed

lemma speed_step_percent:
  assumes "0 < fc" "\<forall>v\<in>set (snd st). 0 \<le> v \<and> v \<le> 100"
  shows "\<forall>v\<in>set (snd (speed_frame_step clp a sf fc st ft)). 0 \<le> v \<and> v \<le> 100"
proof (cases "fetch_speed_frame clp sf (snd ft)")
  case None
  then show ?thesis using assms(2) by (simp add: speed_frame_step_def)
next
  case (Some frm)
  define x where "x = 30 + rat_of_nat (fst ft) / of_int fc * 60"
  have "0 \<le> rat_of_nat (fst ft) / of_int fc * 60" using assms(1) by simp
  then have "0 \<le> x" unfolding x_def by linarith
  then have c: "0 \<le> min 89 (py_int x)" "min 89 (py_int x) \<le> 100"
    using capped_percent[of x] by blast+
  have r: "\<forall>v\<in>set (report a (snd st) (min 89 (py_int x))). 0 \<le> v \<and> v \<le> 100"
    using assms(2) c by (rule report_percent)
  have "snd (speed_frame_step clp a sf fc st ft)
      = (if fst ft mod 5 = 0 then report a (snd st) (min 89 (py_int x)) else snd st)"
    unfolding speed_frame_step_def x_def using Some by simp
  with r assms(2) show ?thesis by (cases "fst ft mod 5 = 0") presburger+
qed

lemma speed_fold_percent:
  assumes "0 < fc" "\<forall>v\<in>set (snd st). 0 \<le> v \<and> v \<le> 100"
  shows "\<forall>v\<in>set (snd (foldl (speed_frame_step clp a sf fc) st plan)). 0 \<le> v \<and> v \<le> 100"
  using assms(2)
proof (induction plan arbitrary: st)
  case Nil
  then show ?case by simp
next
  case (Cons ft plan)
  have "\<forall>v\<in>set (snd (speed_frame_step clp a sf fc st ft)). 0 \<le> v \<and> v \<le> 100"
    using assms(1) Cons.prems by (rule speed_step_percent)
  then have "\<forall>v\<in>set (snd (foldl (speed_frame_step clp a sf fc)
                 (speed_frame_step clp a sf fc st ft) plan)). 0 \<le> v \<and> v \<le> 100"
    by (rule Cons.IH)
  then show ?case by simp
qed

lemma speed_frames_percent:
  "\<forall>v\<in>set (snd (speed_frames clp a sf)). 0 \<le> v \<and> v \<le> 100"
proof (cases "0 < frame_count_of (duration clp) (fps a) (speed_factor a)")
  case True
  have "\<forall>v\<in>set (snd ([]::frame list, []::int list)). 0 \<le> v \<and> v \<le> 100" by simp
  with True show ?thesis unfolding speed_frames_def Let_def by (rule speed_fold_percent)
next
  case False
  then show ?thesis by (simp add: speed_frames_def sample_plan_def)
qed

lemma direct_loop_percent:
  assumes "0 \<le> duration clp * fps a" "\<forall>v\<in>set (snd st). 0 \<le> v \<and> v \<le> 100"
  shows "case direct_loop clp a st ts of
           Inl p \<Rightarrow> \<forall>v\<in>set p. 0 \<le> v \<and> v \<le> 100
         | Inr st' \<Rightarrow> \<forall>v\<in>set (snd st'). 0 \<le> v \<and> v \<le> 100"
  using assms(2)
proof (induction ts arbitrary: st)
  case Nil
  then show ?case by simp
next
  case (Cons t ts)
  define x where "x = 30 + (rat_of_nat t / (duration clp * fps a)) * 60"
  have "0 \<le> (rat_of_nat t / (duration clp * fps a)) * 60" using assms(1) by simp
  then have "0 \<le> x" unfolding x_def by linarith
  then have c: "0 \<le> min 89 (py_int x)" "min 89 (py_int x) \<le> 100"
    using capped_percent[of x] by blast+
  have r: "\<forall>v\<in>set (report a (snd st) (min 89 (py_int x))). 0 \<le> v \<and> v \<le> 100"
    using Cons.prems c by (rule report_percent)
  show ?case
  proof (cases "(of_nat t / fps a) * speed_factor a \<le> duration clp")
    case False
    with Cons.IH[OF Cons.prems] show ?thesis by (simp add: Let_def)
  next
    case True
    show ?thesis
    proof (cases "get_frame clp ((of_nat t / fps a) * speed_factor a)")
      case None
      with True Cons.prems show ?thesis by (simp add: Let_def)
    next
      case (Some frm)
      let ?st' = "(fst st @ [frm],
          if t mod 5 = 0 then report a (snd st) (min 89 (py_int x)) else snd st)"
      have "\<forall>v\<in>set (snd ?st'). 0 \<le> v \<and> v \<le> 100"
        using r Cons.prems by (cases "t mod 5 = 0") simp_all
      then have ih: "case direct_loop clp a ?st' ts of
           Inl p \<Rightarrow> \<forall>v\<in>set p. 0 \<le> v \<and> v \<le> 100
         | Inr st' \<Rightarrow> \<forall>v\<in>set (snd st'). 0 \<le> v \<and> v \<le> 100"
        by (rule Cons.IH)
      have eq: "direct_loop clp a st (t # ts) = direct_loop clp a ?st' ts"
        using True Some unfolding x_def
        by (simp only: direct_loop.simps Let_def if_True option.case)
      show ?thesis unfolding eq by (rule ih)
    qed
  qed
qed

lemma direct_loop_range_percent:
  assumes "\<forall>v\<in>set (snd st). 0 \<le> v \<and> v \<le> 100"
  shows "case direct_loop clp a st [0..<nat (py_int (duration clp * fps a))] of
           Inl p \<Rightarrow> \<forall>v\<in>set p. 0 \<le> v \<and> v \<le> 100
         | Inr st' \<Rightarrow> \<forall>v\<in>set (snd st'). 0 \<le> v \<and> v \<le> 100"
proof (cases "0 \<le> duration clp * fps a")
  case True
  then show ?thesis using assms by (rule direct_loop_percent)
next
  case False
  then have "py_int (duration clp * fps a) \<le> 0" by (simp add: py_int_def ceiling_le_zero)
  then show ?thesis using assms by simp
qed

lemma standard_methods_percent:
  assumes "\<forall>v\<in>set prog. 0 \<le> v \<and> v \<le> 100"
  shows "\<forall>v\<in>set (progress (standard_methods ev a clp prog)). 0 \<le> v \<and> v \<le> 100"
proof -
  have p1: "\<forall>v\<in>set (report a prog 30). 0 \<le> v \<and> v \<le> 100"
    using assms by (intro report_percent) simp_all
  then have p2: "\<forall>v\<in>set (report a (report a (report a prog 30) 90) 100). 0 \<le> v \<and> v \<le> 100"
    by (auto simp: report_def)
  have "\<forall>v\<in>set (snd ([]::frame list, report a prog 30)). 0 \<le> v \<and> v \<le> 100"
    using p1 by simp
  from direct_loop_range_percent[OF this, of clp]
  have p3: "case direct_loop clp a ([], report a prog 30)
                  [0..<nat (py_int (duration clp * fps a))] of
           Inl p \<Rightarrow> \<forall>v\<in>set p. 0 \<le> v \<and> v \<le> 100
         | Inr st' \<Rightarrow> \<forall>v\<in>set (snd st'). 0 \<le> v \<and> v \<le> 100" .
  show ?thesis
  proof (cases "write_gif_optimized ev")
    case Written
    with p2 show ?thesis by (simp add: standard_methods_def Let_def)
  next
    case Raises_Other
    with p1 show ?thesis by (simp add: standard_methods_def Let_def)
  next
    case Raises_TypeError
    show ?thesis
    proof (cases "write_gif_ffmpeg ev = Written")
      case True
      with Raises_TypeError p2 show ?thesis by (simp add: standard_methods_def Let_def)
    next
      case False
      show ?thesis
      proof (cases "direct_loop clp a ([], report a prog 30)
                  [0..<nat (py_int (duration clp * fps a))]")
        case (Inl p)
        with p3 Raises_TypeError False show ?thesis
          by (simp add: standard_methods_def Let_def)
      next
        case (Inr st')
        with p3 have "\<forall>v\<in>set (snd st'). 0 \<le> v \<and> v \<le> 100" by simp
        then have "\<forall>v\<in>set (report a (report a (snd st') 90) 100). 0 \<le> v \<and> v \<le> 100"
          by (auto simp: report_def)
        with Inr Raises_TypeError False \<open>\<forall>v\<in>set (snd st'). 0 \<le> v \<and> v \<le> 100\<close>
        show ?thesis by (simp add: standard_methods_def Let_def)
      qed
    qed
  qed
qed

lemma create_gif_single_percent:
  "\<forall>v\<in>set (progress (create_gif_single ev a)). 0 \<le> v \<and> v \<le> 100"
proof (cases "subclip ev (start_time a) (end_time a)")
  case None
  then show ?thesis by (simp add: create_gif_single_def)
next
  case (Some clp)
  have s0: "\<forall>v\<in>set (progress (standard_methods ev a clp [])). 0 \<le> v \<and> v \<le> 100"
    by (rule standard_methods_percent) simp
  show ?thesis
  proof (cases "speed_factor a \<noteq> 1")
    case False
    with Some s0 show ?thesis by (simp add: create_gif_single_def)
  next
    case True
    show ?thesis
    proof (cases "get_frame clp 0")
      case None
      with Some True show ?thesis by (simp add: create_gif_single_def)
    next
      case (Some sf)
      have sp: "\<forall>v\<in>set (snd (speed_frames clp a sf)). 0 \<le> v \<and> v \<le> 100"
        by (rule speed_frames_percent)
      then have s1: "\<forall>v\<in>set (progress (standard_methods ev a clp (snd (speed_frames clp a sf)))).
          0 \<le> v \<and> v \<le> 100"
        by (rule standard_methods_percent)
      from sp have s2: "\<forall>v\<in>set (report a (snd (speed_frames clp a sf)) 80). 0 \<le> v \<and> v \<le> 100"
        by (auto simp: report_def)
      then have s3: "\<forall>v\<in>set (report a (report a (snd (speed_frames clp a sf)) 80) 100).
          0 \<le> v \<and> v \<le> 100"
        by (auto simp: report_def)
      from \<open>subclip ev (start_time a) (end_time a) = Some clp\<close> True Some s1 s2 s3
      show ?thesis by (simp add: create_gif_single_def Let_def)
    qed
  qed
qed

lemma process_segment_silent:
  assumes "\<not> progress_callback a"
  shows "case process_segment ev a n st iseg of
           Inl p \<Rightarrow> p = snd st | Inr st' \<Rightarrow> snd st' = snd st"
  using assms
  by (simp add: process_segment_def Let_def report_silent segment_silent
      split: option.splits sum.splits)

lemma process_segments_silent:
  assumes "\<not> progress_callback a"
  shows "case process_segments ev a n st isegs of
           Inl p \<Rightarrow> p = snd st | Inr st' \<Rightarrow> snd st' = snd st"
proof (induction isegs arbitrary: st)
  case Nil
  then show ?case by simp
next
  case (Cons iseg isegs)
  show ?case
  proof (cases "process_segment ev a n st iseg")
    case (Inl p)
    with process_segment_silent[OF assms, where ev=ev and n=n and st=st and iseg=iseg] show ?thesis by simp
  next
    case (Inr st')
    with process_segment_silent[OF assms, where ev=ev and n=n and st=st and iseg=iseg] have "snd st' = snd st" by simp
    with Cons.IH[where st=st'] Inr show ?thesis
      by (cases "process_segments ev a n st' isegs") simp_all
  qed
qed

lemma speed_silent:
  assumes "\<not> progress_callback a"
  shows "snd (foldl (speed_frame_step clp a sf fc) st plan) = snd st"
proof (induction plan arbitrary: st)
  case Nil
  then show ?case by simp
next
  case (Cons ft plan)
  have "snd (speed_frame_step clp a sf fc st ft) = snd st"
    using assms by (cases "fetch_speed_frame clp sf (snd ft)")
      (simp_all add: speed_frame_step_def report_def)
  with Cons.IH[of "speed_frame_step clp a sf fc st ft"] show ?case by simp
qed

lemma direct_loop_silent:
  assumes "\<not> progress_callback a"
  shows "case direct_loop clp a st ts of
           Inl p \<Rightarrow> p = snd st | Inr st' \<Rightarrow> snd st' = snd st"
proof (induction ts arbitrary: st)
  case Nil
  then show ?case by simp
next
  case (Cons t ts)
  show ?case
  proof (cases "(of_nat t / fps a) * speed_factor a \<le> duration clp")
    case False
    with Cons.IH[where st=st] show ?thesis by (simp add: Let_def)
  next
    case True
    show ?thesis
    proof (cases "get_frame clp ((of_nat t / fps a) * speed_factor a)")
      case None
      with True show ?thesis by (simp add: Let_def)
    next
      case (Some frm)
      let ?st' = "(fst st @ [frm],
          if t mod 5 = 0
          then report a (snd st) (min 89 (py_int (30 + (of_nat t / (duration clp * fps a)) * 60)))
          else snd st)"
      have s: "snd ?st' = snd st" using assms by (simp add: report_def)
      have eq: "direct_loop clp a st (t # ts) = direct_loop clp a ?st' ts"
        using True Some by (simp only: direct_loop.simps Let_def if_True option.case)
      from Cons.IH[where st="?st'"] show ?thesis unfolding eq s .
    qed
  qed
qed

lemma standard_methods_silent:
  assumes "\<not> progress_callback a"
  shows "progress (standard_methods ev a clp prog) = prog"
  using assms direct_loop_silent[OF assms, where clp=clp and st="([], report a prog 30)"
      and ts="[0..<nat (py_int (duration clp * fps a))]"]
  by (auto simp: standard_methods_def Let_def report_def
      split: write_outcome.splits sum.splits)

lemma create_gif_silent:
  assumes "\<not> progress_callback a"
  shows "progress (create_gif ev a) = []"
proof -
  have seg: "progress (create_gif_segments ev a) = []"
    using assms process_segments_silent[OF assms, where ev=ev and n="length (segments a)"
        and st="([], [])" and isegs="zip [0..<length (segments a)] (segments a)"]
    by (auto simp: create_gif_segments_def Let_def report_def split: sum.splits)
  have sp: "snd (speed_frames clp a sf) = []" for clp sf
    using assms by (simp add: speed_frames_def Let_def speed_silent)
  have single: "progress (create_gif_single ev a) = []"
    using assms sp
    by (auto simp: create_gif_single_def Let_def report_def standard_methods_silent
        split: option.splits)
  from seg single show ?thesis by (simp add: create_gif_def)
qed

lemma standard_methods_complete:
  assumes "returned (standard_methods ev a clp prog)" "progress_callback a"
  shows "\<exists>p. progress (standard_methods ev a clp prog) = p @ [100]"
  using assms
  by (auto simp: standard_methods_def Let_def report_def
      split: write_outcome.splits sum.splits if_splits)

lemma create_gif_complete:
  assumes "returned (create_gif ev a)" "progress_callback a"
  shows "\<exists>p. progress (create_gif ev a) = p @ [100]"
proof (cases "segments a \<noteq> []")
  case True
  with assms have "returned (create_gif_segments ev a)"
    by (auto simp: create_gif_def split: if_splits)
  then have "\<exists>p. progress (create_gif_segments ev a) = p @ [100]"
    using assms(2)
    by (auto simp: create_gif_segments_def Let_def report_def split: sum.splits if_splits)
  with True assms(1) show ?thesis by (auto simp: create_gif_def split: if_splits)
next
  case False
  with assms have r: "returned (create_gif_single ev a)"
    by (auto simp: create_gif_def split: if_splits)
  have "\<exists>p. progress (create_gif_single ev a) = p @ [100]"
  proof (cases "\<exists>clp prog. create_gif_single ev a = standard_methods ev a clp prog")
    case True
    then obtain clp prog where e: "create_gif_single ev a = standard_methods ev a clp prog"
      by blast
    with r assms(2) show ?thesis by (simp add: standard_methods_complete)
  next
    case False
    with r assms(2) show ?thesis
      by (auto simp: create_gif_single_def Let_def report_def split: option.splits if_splits)
  qed
  with False assms(1) show ?thesis by (auto simp: create_gif_def split: if_splits)
qed

lemma create_gif_percent:
  "\<forall>v\<in>set (progress (create_gif ev a)). 0 \<le> v \<and> v \<le> 100"
  using create_gif_segments_percent[of ev a] create_gif_single_percent[of ev a]
  by (simp add: create_gif_def)

lemma create_gif_not_started:
  "\<not> cap_opened ev \<or> \<not> path_exists ev \<or> \<not> VideoFileClip_available ev
     \<Longrightarrow> progress (create_gif ev a) = [] \<and> \<not> returned (create_gif ev a)"
  by (auto simp: create_gif_def)

lemma create_gif_progress_facts:
  "(\<forall>v\<in>set (progress (create_gif ev a)). 0 \<le> v \<and> v \<le> 100)
   \<and> (returned (create_gif ev a) \<and> progress_callback a
        \<longrightarrow> progress (create_gif ev a) \<noteq> [] \<and> last (progress (create_gif ev a)) = 100)
   \<and> (\<not> progress_callback a \<longrightarrow> progress (create_gif ev a) = [])
   \<and> (\<not> cap_opened ev \<or> \<not> path_exists ev \<or> \<not> VideoFileClip_available ev
        \<longrightarrow> progress (create_gif ev a) = [] \<and> \<not> returned (create_gif ev a))"
proof (intro conjI impI)
  show "\<forall>v\<in>set (progress (create_gif ev a)). 0 \<le> v \<and> v \<le> 100"
    by (rule create_gif_percent)
next
  assume h: "returned (create_gif ev a) \<and> progress_callback a"
  then obtain p where "progress (create_gif ev a) = p @ [100]"
    using create_gif_complete by blast
  then show "progress (create_gif ev a) \<noteq> []" "last (progress (create_gif ev a)) = 100"
    by simp_all
next
  assume "\<not> progress_callback a"
  then show "progress (create_gif ev a) = []" by (rule create_gif_silent)
next
  assume h: "\<not> cap_opened ev \<or> \<not> path_exists ev \<or> \<not> VideoFileClip_available ev"
  from create_gif_not_started[OF h]
  show "progress (create_gif ev a) = []" "\<not> returned (create_gif ev a)" by simp_all
qed




text \<open>
  C8. The values that \<open>create_gif\<close> reports lie between 0 and 100, a successful run
  with a callback ends with 100, and nothing is reported when the video is not loaded
  (\<open>create_gif_progress_facts\<close>). They are not non-decreasing: a run over the two
  segments (0,1) and (1,2) at 5 frames per second succeeds and reports 0, 40, 20, 65, 90,
  100, falling back from 40 to 20 at the start of the second segment; a single range of
  7 seconds at 10 frames per second and double speed reports 81 for its last sampled
  frame and then 80 before encoding.
\<close>

theorem create_gif_progress_regresses:
  "returned (create_gif steady_env two_segments_request)
   \<and> progress (create_gif steady_env two_segments_request) = [0, 40, 20, 65, 90, 100]
   \<and> \<not> sorted (progress (create_gif steady_env two_segments_request))
   \<and> returned (create_gif steady_env fast_request)
   \<and> progress (create_gif steady_env fast_request) = [30, 38, 47, 55, 64, 72, 81, 80, 100]
   \<and> \<not> sorted (progress (create_gif steady_env fast_request))"
  by code_simp

text \<open>
  C9, as claimed: whenever no frame was produced, \<open>create_gif\<close> returns \<open>False\<close>. For a
  single range of one second at 1 frame per second and double speed the frame count is
  0 and no frame is sampled, yet \<open>create_gif\<close> falls through to the standard
  \<open>write_gif\<close> and returns \<open>True\<close>.
\<close>

theorem create_gif_single_range_no_frames_counterexample:
  "segments short_request = []
   \<and> subclip steady_env (start_time short_request) (end_time short_request)
       = Some (steady_clip 1)
   \<and> fst (speed_frames (steady_clip 1) short_request \<lparr>height = 2, width = 2\<rparr>) = []
   \<and> returned (create_gif steady_env short_request)
   \<and> encoder (create_gif steady_env short_request) = [Write_gif_optimized 1 10 1]"
proof (intro conjI)
  show "subclip steady_env (start_time short_request) (end_time short_request)
       = Some (steady_clip 1)"
    by (simp add: steady_env_def short_request_def plain_request_def)
qed code_simp+

lemma create_gif_segments_no_frames:
  assumes "collected_frames ev a = None \<or> collected_frames ev a = Some []"
  shows "\<not> returned (create_gif_segments ev a) \<and> encoder (create_gif_segments ev a) = []"
  using assms
  by (auto simp: create_gif_segments_def collected_frames_def Let_def split: sum.splits)

text \<open>
  C9, amended: for every call to \<open>create_gif\<close> with segments in which, after processing
  all segments, no frame was collected (or an exception ended the processing),
  \<open>create_gif\<close> returns \<open>False\<close> and invokes no encoder; and no frame sequence that
  \<open>create_gif\<close> passes to the encoder, on any path, is empty.
\<close>

theorem create_gif_no_frames_fails:
  "(segments a \<noteq> [] \<and> (collected_frames ev a = None \<or> collected_frames ev a = Some [])
      \<longrightarrow> \<not> returned (create_gif ev a) \<and> encoder (create_gif ev a) = [])
   \<and> (\<forall>c\<in>set (encoder (create_gif ev a)). call_frames c \<noteq> Some [])"
proof (intro conjI impI ballI)
  assume h: "segments a \<noteq> [] \<and> (collected_frames ev a = None \<or> collected_frames ev a = Some [])"
  then have "\<not> returned (create_gif_segments ev a) \<and> encoder (create_gif_segments ev a) = []"
    by (intro create_gif_segments_no_frames) simp
  with h show "\<not> returned (create_gif ev a)" "encoder (create_gif ev a) = []"
    by (simp_all add: create_gif_def)
next
  fix c assume "c \<in> set (encoder (create_gif ev a))"
  from create_gif_calls[OF this] show "call_frames c \<noteq> Some []" by auto
qed

theorem create_gif_no_frames_fails_witness:
  "segments two_segments_request \<noteq> []
   \<and> collected_frames blank_env two_segments_request = Some []
   \<and> \<not> returned (create_gif blank_env two_segments_request)
   \<and> encoder (create_gif blank_env two_segments_request) = []
   \<and> map call_frames (encoder (create_gif steady_env short_request)) = [None]"
proof -
  have s: "segments two_segments_request \<noteq> []"
    "collected_frames blank_env two_segments_request = Some []"
    by code_simp+
  have e: "map call_frames (encoder (create_gif steady_env short_request)) = [None]"
    by code_simp
  from create_gif_no_frames_fails[of two_segments_request blank_env] s
  have "\<not> returned (create_gif blank_env two_segments_request)
      \<and> encoder (create_gif blank_env two_segments_request) = []" by blast
  with s e show ?thesis by simp
qed

end
